theory Spec2Isabelle
  imports Main "HOL-Library.Sublist"
begin

section \<open>Data model\<close>

text \<open>
  The service \<open>HubitatDeviceEventsService\<close> of
  \<open>src/hubitat-device-events/hubitat-device-events.service.ts\<close> routes device events to
  registered automations. The types it imports are not part of the source file; the
  records below list exactly the fields the service reads.
\<close>

text \<open>
  Modelled from the spec: \<open>HUBITAT_DEVICE_EVENT_TYPE\<close>, the device-event marker imported
  from \<open>./hubitat-device-event\<close>. Only equality with this constant is ever used; no
  general theorem below unfolds its value.
\<close>

definition HUBITAT_DEVICE_EVENT_TYPE :: string where
  "HUBITAT_DEVICE_EVENT_TYPE = ''hubitat-device-event''"

record HubitatDeviceEvent =
  eventType :: string
  deviceId :: int
  attributeName :: string
  newValue :: string
  previousValue :: string

text \<open>
  A \<open>ChangeFilter\<close> is a tag and a value. The tag is kept as a string so that tags outside
  the five known ones can be written down. The source compares against the template
  string built from \<open>filter.value\<close>, which for a string value is the value itself. The
  fields \<open>name\<close> and \<open>value\<close> of the source are \<open>filter_name\<close> and \<open>filter_value\<close> here.
\<close>

record ChangeFilter =
  filter_name :: string
  filter_value :: string

record ChangeGroup =
  filters :: "ChangeFilter list"

record AttributeFilter =
  attributeNames :: "string list"
  changeGroups :: "ChangeGroup list"

text \<open>
  A trigger definition carries its \<open>triggerType\<close> tag; \<open>devices\<close> and \<open>attributes\<close> are
  the fields of a \<open>HubitatDeviceTriggerDefinition\<close>, read only after the tag has been
  checked by \<open>getCompatibleTriggers\<close>.
\<close>

record TriggerDefinition =
  triggerType :: string
  devices :: "int list"
  attributes :: "AttributeFilter list"

text \<open>
  Modelled from the spec: the getter \<open>allAttributeNames\<close> of
  \<open>HubitatDeviceTriggerDefinition\<close>, "the union, across all AttributeFilters in this
  trigger, of each filter's attributeNames".
\<close>

definition allAttributeNames :: "TriggerDefinition \<Rightarrow> string list" where
  "allAttributeNames t = remdups (concat (map attributeNames (attributes t)))"

text \<open>
  An automation object: its display name, its built triggers and its callback. The
  callback is caller-supplied code; the model keeps of it only whether it returns
  (\<open>None\<close>) or throws (\<open>Some x\<close>, with \<open>x\<close> the text of the exception). Callbacks that call
  back into the service are outside the model. The fields \<open>name\<close> and \<open>handleEvent\<close> of the
  source are \<open>automation_name\<close> and \<open>automation_handleEvent\<close> here, apart from the filter's
  name and from the \<open>handleEvent\<close> of the service.
\<close>

record Automation =
  automation_name :: string
  builtTriggers :: "TriggerDefinition list"
  automation_handleEvent :: "HubitatDeviceEvent \<Rightarrow> string option"

text \<open>
  Automations are compared by reference. A reference is a natural number and the store
  maps each reference to the current contents of the object, so that a change of an
  automation's triggers between two calls is a change of the store.
\<close>

type_synonym ref = nat
type_synonym store = "ref \<Rightarrow> Automation"

datatype error =
  AlreadyRegistered string
  | AutomationFailed string HubitatDeviceEvent

subsection \<open>Native sets\<close>

text \<open>
  A JavaScript \<open>Set\<close> is a duplicate-free list in insertion order: \<open>add\<close> appends an
  absent element, \<open>delete\<close> removes the element, \<open>new Set(iterable)\<close> adds the elements
  one after the other.
\<close>

definition set_add :: "'a \<Rightarrow> 'a list \<Rightarrow> 'a list" where
  "set_add x xs = (if x \<in> set xs then xs else xs @ [x])"

definition set_delete :: "'a \<Rightarrow> 'a list \<Rightarrow> 'a list" where
  "set_delete x xs = removeAll x xs"

definition new_Set :: "'a list \<Rightarrow> 'a list" where
  "new_Set xs = fold set_add xs []"

subsection \<open>Subscriber collections\<close>

text \<open>
  Modelled from the spec: \<open>SubscribersSet\<close> of \<open>../common/subscribers-set\<close>, a set of
  automation references iterated in insertion order; \<open>subscribe\<close> adds a subscriber,
  \<open>unsubscribe\<close> removes it.
\<close>

type_synonym 'a SubscribersSet = "'a list"

definition SubscribersSet_subscribe :: "'a \<Rightarrow> 'a SubscribersSet \<Rightarrow> 'a SubscribersSet" where
  "SubscribersSet_subscribe a s = set_add a s"

definition SubscribersSet_unsubscribe :: "'a \<Rightarrow> 'a SubscribersSet \<Rightarrow> 'a SubscribersSet" where
  "SubscribersSet_unsubscribe a s = set_delete a s"

text \<open>
  Modelled from the spec: \<open>SubscribersMap\<close> of \<open>../common/subscribers-map\<close>, an index
  from a key to a set of subscribers. \<open>getSet\<close> gives the set of a key or nothing for
  an unknown key, \<open>getSubscribers\<close> gives the subscribers of all keys. A key whose set
  became empty stays in the map with the empty set, which the spec allows.
\<close>

type_synonym ('k, 'a) SubscribersMap = "('k \<times> 'a SubscribersSet) list"

definition getSet :: "'k \<Rightarrow> ('k, 'a) SubscribersMap \<Rightarrow> 'a SubscribersSet option" where
  "getSet k m = map_of m k"

definition onKey :: "'k \<Rightarrow> ('a SubscribersSet \<Rightarrow> 'a SubscribersSet) \<Rightarrow>
    'k \<times> 'a SubscribersSet \<Rightarrow> 'k \<times> 'a SubscribersSet" where
  "onKey k f p = (if fst p = k then (fst p, f (snd p)) else p)"

definition SubscribersMap_subscribe ::
    "'k \<Rightarrow> 'a \<Rightarrow> ('k, 'a) SubscribersMap \<Rightarrow> ('k, 'a) SubscribersMap" where
  "SubscribersMap_subscribe k a m =
     (case getSet k m of
        None \<Rightarrow> m @ [(k, SubscribersSet_subscribe a [])]
      | Some s \<Rightarrow> map (onKey k (SubscribersSet_subscribe a)) m)"

definition SubscribersMap_unsubscribe ::
    "'k \<Rightarrow> 'a \<Rightarrow> ('k, 'a) SubscribersMap \<Rightarrow> ('k, 'a) SubscribersMap" where
  "SubscribersMap_unsubscribe k a m = map (onKey k (SubscribersSet_unsubscribe a)) m"

definition getSubscribers :: "('k, 'a) SubscribersMap \<Rightarrow> 'a list" where
  "getSubscribers m = concat (map snd m)"

section \<open>The service\<close>

record HubitatDeviceEventsService =
  subscriptionsByDeviceId :: "(int, ref) SubscribersMap"
  subscriptionsByAttributeName :: "(string, ref) SubscribersMap"
  subscriptionsOfAllEvents :: "ref SubscribersSet"
  subscribedAutomations :: "ref list"

definition newService :: HubitatDeviceEventsService where
  "newService = \<lparr> subscriptionsByDeviceId = [], subscriptionsByAttributeName = [],
     subscriptionsOfAllEvents = [], subscribedAutomations = [] \<rparr>"

definition getCompatibleTriggers :: "TriggerDefinition list \<Rightarrow> TriggerDefinition list" where
  "getCompatibleTriggers triggerDefinitions =
     filter (\<lambda>trigger. triggerType trigger = HUBITAT_DEVICE_EVENT_TYPE) triggerDefinitions"

subsection \<open>Matching\<close>

definition matchFilter :: "ChangeFilter \<Rightarrow> HubitatDeviceEvent \<Rightarrow> bool" where
  "matchFilter f event =
     (if filter_name f = ''changes'' then True
      else if filter_name f = ''is'' then newValue event = filter_value f
      else if filter_name f = ''is-not'' then newValue event \<noteq> filter_value f
      else if filter_name f = ''was'' then previousValue event = filter_value f
      else if filter_name f = ''was-not'' then previousValue event \<noteq> filter_value f
      else False)"

text \<open>
  Modelled from the spec: the helper \<open>all\<close> of \<open>../common/collections-helpers\<close>: every
  element satisfies the predicate, which is true of the empty sequence.
\<close>

fun all_helper :: "'a list \<Rightarrow> ('a \<Rightarrow> bool) \<Rightarrow> bool" where
  "all_helper [] p = True"
| "all_helper (x # xs) p = (if p x then all_helper xs p else False)"

fun matchGroups_loop :: "ChangeGroup list \<Rightarrow> HubitatDeviceEvent \<Rightarrow> bool" where
  "matchGroups_loop [] event = False"
| "matchGroups_loop (changeGroup # rest) event =
     (if all_helper (filters changeGroup) (\<lambda>f. matchFilter f event) then True
      else matchGroups_loop rest event)"

definition matchGroups :: "AttributeFilter \<Rightarrow> HubitatDeviceEvent \<Rightarrow> bool" where
  "matchGroups attributeFilter event = matchGroups_loop (changeGroups attributeFilter) event"

fun matchAttributes_loop :: "AttributeFilter list \<Rightarrow> HubitatDeviceEvent \<Rightarrow> bool" where
  "matchAttributes_loop [] event = False"
| "matchAttributes_loop (attributeFilter # rest) event =
     (if attributeName event \<notin> set (attributeNames attributeFilter)
        then matchAttributes_loop rest event
      else if matchGroups attributeFilter event then True
      else matchAttributes_loop rest event)"

definition matchAttributes :: "TriggerDefinition \<Rightarrow> HubitatDeviceEvent \<Rightarrow> bool" where
  "matchAttributes trigger event = matchAttributes_loop (attributes trigger) event"

definition matchDevice :: "TriggerDefinition \<Rightarrow> HubitatDeviceEvent \<Rightarrow> bool" where
  "matchDevice trigger event =
     (if deviceId event \<notin> set (devices trigger) then False
      else if length (attributes trigger) = 0 then True
      else matchAttributes trigger event)"

fun matchEvent_loop :: "TriggerDefinition list \<Rightarrow> HubitatDeviceEvent \<Rightarrow> bool" where
  "matchEvent_loop [] event = False"
| "matchEvent_loop (trigger # rest) event =
     (if length (devices trigger) = 0 then
        (if length (attributes trigger) = 0 then True
         else if matchAttributes trigger event then True
         else matchEvent_loop rest event)
      else if matchDevice trigger event then True
      else matchEvent_loop rest event)"

definition matchEvent :: "Automation \<Rightarrow> HubitatDeviceEvent \<Rightarrow> bool" where
  "matchEvent automation event =
     matchEvent_loop (getCompatibleTriggers (builtTriggers automation)) event"

subsection \<open>Registration\<close>

text \<open>
  The body of the loop of \<open>registerAutomation\<close> over the compatible triggers: exactly
  one of the three branches runs for a trigger, and each adds the automation to
  \<open>subscribedAutomations\<close> before it subscribes it in its index.
\<close>

definition registerTrigger ::
    "ref \<Rightarrow> TriggerDefinition \<Rightarrow> HubitatDeviceEventsService \<Rightarrow> HubitatDeviceEventsService" where
  "registerTrigger automation trigger s =
     (if length (devices trigger) = 0 \<and> length (attributes trigger) = 0 then
        s\<lparr> subscribedAutomations := set_add automation (subscribedAutomations s),
           subscriptionsOfAllEvents :=
             SubscribersSet_subscribe automation (subscriptionsOfAllEvents s) \<rparr>
      else if length (devices trigger) > 0 then
        s\<lparr> subscribedAutomations := set_add automation (subscribedAutomations s),
           subscriptionsByDeviceId :=
             fold (\<lambda>deviceId. SubscribersMap_subscribe deviceId automation)
               (devices trigger) (subscriptionsByDeviceId s) \<rparr>
      else if length (attributes trigger) > 0 then
        s\<lparr> subscribedAutomations := set_add automation (subscribedAutomations s),
           subscriptionsByAttributeName :=
             fold (\<lambda>attributeName. SubscribersMap_subscribe attributeName automation)
               (allAttributeNames trigger) (subscriptionsByAttributeName s) \<rparr>
      else s)"

text \<open>
  \<open>registerAutomation\<close> returns the error it throws, if any, together with the state of
  the service after the call.
\<close>

definition registerAutomation ::
    "store \<Rightarrow> ref \<Rightarrow> HubitatDeviceEventsService \<Rightarrow> error option \<times> HubitatDeviceEventsService" where
  "registerAutomation st automation s =
     (if automation \<in> set (subscribedAutomations s) then
        (Some (AlreadyRegistered (automation_name (st automation))), s)
      else
        (let triggers = getCompatibleTriggers (builtTriggers (st automation)) in
         if length triggers < 1 then (None, s)
         else (None, fold (registerTrigger automation) triggers s)))"

definition unregisterTrigger ::
    "ref \<Rightarrow> TriggerDefinition \<Rightarrow> HubitatDeviceEventsService \<Rightarrow> HubitatDeviceEventsService" where
  "unregisterTrigger automation trigger s =
     (if length (devices trigger) = 0 \<and> length (attributes trigger) = 0 then
        s\<lparr> subscriptionsOfAllEvents :=
             SubscribersSet_unsubscribe automation (subscriptionsOfAllEvents s) \<rparr>
      else if length (devices trigger) > 0 then
        s\<lparr> subscriptionsByDeviceId :=
             fold (\<lambda>deviceId. SubscribersMap_unsubscribe deviceId automation)
               (devices trigger) (subscriptionsByDeviceId s) \<rparr>
      else if length (attributes trigger) > 0 then
        s\<lparr> subscriptionsByAttributeName :=
             fold (\<lambda>attributeName. SubscribersMap_unsubscribe attributeName automation)
               (allAttributeNames trigger) (subscriptionsByAttributeName s) \<rparr>
      else s)"

definition recreateSubscribedAutomationsSet ::
    "HubitatDeviceEventsService \<Rightarrow> HubitatDeviceEventsService" where
  "recreateSubscribedAutomationsSet s =
     (let automations = new_Set (subscriptionsOfAllEvents s);
          deviceIdAutomations = getSubscribers (subscriptionsByDeviceId s);
          deviceAttributeNameAutomations = getSubscribers (subscriptionsByAttributeName s)
      in s\<lparr> subscribedAutomations :=
             new_Set (automations @ deviceIdAutomations @ deviceAttributeNameAutomations) \<rparr>)"

definition unregisterAutomation ::
    "store \<Rightarrow> ref \<Rightarrow> HubitatDeviceEventsService \<Rightarrow> HubitatDeviceEventsService" where
  "unregisterAutomation st automation s =
     (let triggers = getCompatibleTriggers (builtTriggers (st automation)) in
      recreateSubscribedAutomationsSet (fold (unregisterTrigger automation) triggers s))"

subsection \<open>Dispatch\<close>

text \<open>
  What a call of \<open>handleEvent\<close> does to the outside: the callbacks it invoked, in order,
  and the lines it wrote with \<open>console.error\<close> (automation name and exception text).
\<close>

record Effects =
  invoked :: "ref list"
  console :: "(string \<times> string) list"

text \<open>
  The closure \<open>runMatchingAutomation\<close>. Its state is the local set
  \<open>unhandledAutomations\<close> and the effects so far; it returns the error it throws, if any.
  The automation leaves \<open>unhandledAutomations\<close> before its callback runs.
\<close>

definition runMatchingAutomation ::
    "store \<Rightarrow> HubitatDeviceEvent \<Rightarrow> ref \<Rightarrow> ref list \<times> Effects \<Rightarrow>
     error option \<times> ref list \<times> Effects" where
  "runMatchingAutomation st event automation uw =
     (let unhandledAutomations = fst uw; w = snd uw in
      if automation \<notin> set unhandledAutomations then (None, uw)
      else if \<not> matchEvent (st automation) event then (None, uw)
      else
        (let unhandled' = set_delete automation unhandledAutomations;
             w' = w\<lparr> invoked := invoked w @ [automation] \<rparr>
         in case automation_handleEvent (st automation) event of
              None \<Rightarrow> (None, unhandled', w')
            | Some e \<Rightarrow>
                (Some (AutomationFailed (automation_name (st automation)) event),
                 unhandled',
                 w'\<lparr> console := console w' @ [(automation_name (st automation), e)] \<rparr>)))"

text \<open>A \<open>for ... of\<close> loop over a bucket, left at the first error thrown by its body.\<close>

fun forEach ::
    "(ref \<Rightarrow> ref list \<times> Effects \<Rightarrow> error option \<times> ref list \<times> Effects) \<Rightarrow>
     ref list \<Rightarrow> ref list \<times> Effects \<Rightarrow> error option \<times> ref list \<times> Effects" where
  "forEach body [] uw = (None, uw)"
| "forEach body (automation # rest) uw =
     (case body automation uw of
        (Some e, uw') \<Rightarrow> (Some e, uw')
      | (None, uw') \<Rightarrow> forEach body rest uw')"

text \<open>A bucket looked up with \<open>getSet\<close> is iterated only when it is not null.\<close>

definition bucket :: "'a SubscribersSet option \<Rightarrow> 'a list" where
  "bucket b = (case b of None \<Rightarrow> [] | Some subscribers \<Rightarrow> subscribers)"

text \<open>
  \<open>handleEvent\<close> returns the error it throws, if any, its effects, and the state of the
  service after the call: the source writes to no field of the service.
\<close>

definition handleEvent ::
    "store \<Rightarrow> HubitatDeviceEvent \<Rightarrow> HubitatDeviceEventsService \<Rightarrow>
     error option \<times> Effects \<times> HubitatDeviceEventsService" where
  "handleEvent st event s =
     (if eventType event \<noteq> HUBITAT_DEVICE_EVENT_TYPE then
        (None, \<lparr> invoked = [], console = [] \<rparr>, s)
      else
        (let unhandledAutomations = new_Set (subscribedAutomations s);
             uw0 = (unhandledAutomations, \<lparr> invoked = [], console = [] \<rparr>)
         in case forEach (runMatchingAutomation st event) (subscriptionsOfAllEvents s) uw0 of
              (Some e, uw1) \<Rightarrow> (Some e, snd uw1, s)
            | (None, uw1) \<Rightarrow>
                (case forEach (runMatchingAutomation st event)
                        (bucket (getSet (deviceId event) (subscriptionsByDeviceId s))) uw1 of
                   (Some e, uw2) \<Rightarrow> (Some e, snd uw2, s)
                 | (None, uw2) \<Rightarrow>
                     (case forEach (runMatchingAutomation st event)
                             (bucket (getSet (attributeName event)
                                (subscriptionsByAttributeName s))) uw2 of
                        (e, uw3) \<Rightarrow> (e, snd uw3, s)))))"

text \<open>The three parts of the result of \<open>handleEvent\<close>.\<close>

definition thrownBy :: "error option \<times> Effects \<times> HubitatDeviceEventsService \<Rightarrow> error option" where
  "thrownBy r = fst r"

definition invokedBy :: "error option \<times> Effects \<times> HubitatDeviceEventsService \<Rightarrow> ref list" where
  "invokedBy r = invoked (fst (snd r))"

definition consoleBy ::
    "error option \<times> Effects \<times> HubitatDeviceEventsService \<Rightarrow> (string \<times> string) list" where
  "consoleBy r = console (fst (snd r))"

definition serviceAfter ::
    "error option \<times> Effects \<times> HubitatDeviceEventsService \<Rightarrow> HubitatDeviceEventsService" where
  "serviceAfter r = snd (snd r)"

text \<open>The candidate stream of an event: the three buckets, one after the other.\<close>

definition candidates :: "HubitatDeviceEvent \<Rightarrow> HubitatDeviceEventsService \<Rightarrow> ref list" where
  "candidates event s =
     subscriptionsOfAllEvents s
     @ bucket (getSet (deviceId event) (subscriptionsByDeviceId s))
     @ bucket (getSet (attributeName event) (subscriptionsByAttributeName s))"

text \<open>
  The order of notification for an event: the matching subscribers of the catch-all set,
  then the matching subscribers of the event's device that are not in the catch-all set,
  then the matching subscribers of the event's attribute name that are in neither of
  the two, each part in the order of its bucket.
\<close>

definition notificationOrder ::
    "store \<Rightarrow> HubitatDeviceEvent \<Rightarrow> HubitatDeviceEventsService \<Rightarrow> ref list" where
  "notificationOrder st event s =
     filter (\<lambda>a. matchEvent (st a) event) (subscriptionsOfAllEvents s)
     @ filter (\<lambda>a. matchEvent (st a) event \<and> a \<notin> set (subscriptionsOfAllEvents s))
         (bucket (getSet (deviceId event) (subscriptionsByDeviceId s)))
     @ filter (\<lambda>a. matchEvent (st a) event \<and> a \<notin> set (subscriptionsOfAllEvents s)
                \<and> a \<notin> set (bucket (getSet (deviceId event) (subscriptionsByDeviceId s))))
         (bucket (getSet (attributeName event) (subscriptionsByAttributeName s)))"

subsection \<open>Reachable states\<close>

text \<open>
  The states of the service after any sequence of \<open>registerAutomation\<close> and
  \<open>unregisterAutomation\<close> calls on a new service. Each call sees the store of its time.
\<close>

inductive reachable :: "HubitatDeviceEventsService \<Rightarrow> bool" where
  reachable_new: "reachable newService"
| reachable_register: "reachable s \<Longrightarrow> reachable (snd (registerAutomation st a s))"
| reachable_unregister: "reachable s \<Longrightarrow> reachable (unregisterAutomation st a s)"

text \<open>The automations an index holds, as a set.\<close>

definition indexed :: "HubitatDeviceEventsService \<Rightarrow> ref set" where
  "indexed s =
     set (subscriptionsOfAllEvents s)
     \<union> set (getSubscribers (subscriptionsByDeviceId s))
     \<union> set (getSubscribers (subscriptionsByAttributeName s))"

text \<open>
  An index entry of automation \<open>a\<close> under key \<open>k\<close>, and the shape every JavaScript set has:
  no element twice.
\<close>

definition subscribedUnder :: "'a \<Rightarrow> 'k \<Rightarrow> ('k, 'a) SubscribersMap \<Rightarrow> bool" where
  "subscribedUnder a k m = (\<exists>p \<in> set m. fst p = k \<and> a \<in> set (snd p))"

definition bucketsDistinct :: "('k, 'a) SubscribersMap \<Rightarrow> bool" where
  "bucketsDistinct m = (\<forall>p \<in> set m. distinct (snd p))"

definition setsDistinct :: "HubitatDeviceEventsService \<Rightarrow> bool" where
  "setsDistinct s =
     (distinct (subscriptionsOfAllEvents s)
      \<and> bucketsDistinct (subscriptionsByDeviceId s)
      \<and> bucketsDistinct (subscriptionsByAttributeName s))"

text \<open>
  The index entries of an automation: whether it subscribes to every event, the device
  ids and the attribute names it is subscribed under.
\<close>

definition entriesOf :: "ref \<Rightarrow> HubitatDeviceEventsService \<Rightarrow> bool \<times> int set \<times> string set" where
  "entriesOf a s =
     (a \<in> set (subscriptionsOfAllEvents s),
      {k. subscribedUnder a k (subscriptionsByDeviceId s)},
      {n. subscribedUnder a n (subscriptionsByAttributeName s)})"

text \<open>
  Any sequence of \<open>registerAutomation\<close> and \<open>unregisterAutomation\<close> calls on automations
  other than \<open>a\<close>, leading from the first state to the second.
\<close>

inductive othersCalled ::
    "ref \<Rightarrow> HubitatDeviceEventsService \<Rightarrow> HubitatDeviceEventsService \<Rightarrow> bool"
    for a :: ref and s :: HubitatDeviceEventsService where
  others_none: "othersCalled a s s"
| others_register:
    "othersCalled a s s' \<Longrightarrow> b \<noteq> a \<Longrightarrow> othersCalled a s (snd (registerAutomation st b s'))"
| others_unregister:
    "othersCalled a s s' \<Longrightarrow> b \<noteq> a \<Longrightarrow> othersCalled a s (unregisterAutomation st b s')"

section \<open>The matcher as the specification words it\<close>

text \<open>
  "Attribute filters match": some \<open>AttributeFilter\<close> whose \<open>attributeNames\<close> contains the
  event's attribute name has at least one \<open>ChangeGroup\<close> that matches, a group matching
  when all its filters do.
\<close>

definition spec_filtersMatch :: "TriggerDefinition \<Rightarrow> HubitatDeviceEvent \<Rightarrow> bool" where
  "spec_filtersMatch t event =
     (\<exists>af \<in> set (attributes t). attributeName event \<in> set (attributeNames af) \<and>
        (\<exists>g \<in> set (changeGroups af). all_helper (filters g) (\<lambda>f. matchFilter f event)))"

text \<open>
  A definition with no device restriction matches when it has no attribute restriction
  either or when its attribute filters match; one with a device restriction matches
  when the event's device id is listed and there is no attribute restriction or the
  attribute filters match.
\<close>

definition spec_definitionMatches :: "TriggerDefinition \<Rightarrow> HubitatDeviceEvent \<Rightarrow> bool" where
  "spec_definitionMatches t event =
     (if devices t = [] then attributes t = [] \<or> spec_filtersMatch t event
      else deviceId event \<in> set (devices t) \<and> (attributes t = [] \<or> spec_filtersMatch t event))"

text \<open>An automation matches when one of its device-event trigger definitions does.\<close>

definition spec_matches :: "Automation \<Rightarrow> HubitatDeviceEvent \<Rightarrow> bool" where
  "spec_matches automation event =
     (\<exists>t \<in> set (builtTriggers automation).
        triggerType t = HUBITAT_DEVICE_EVENT_TYPE \<and> spec_definitionMatches t event)"

section \<open>Example automations and events\<close>

definition deviceEvent :: "int \<Rightarrow> string \<Rightarrow> string \<Rightarrow> string \<Rightarrow> HubitatDeviceEvent" where
  "deviceEvent d n new old =
     \<lparr> eventType = HUBITAT_DEVICE_EVENT_TYPE, deviceId = d, attributeName = n,
       newValue = new, previousValue = old \<rparr>"

definition switchOn :: HubitatDeviceEvent where
  "switchOn = deviceEvent 5 ''switch'' ''on'' ''off''"

definition switchOff :: HubitatDeviceEvent where
  "switchOff = deviceEvent 5 ''switch'' ''off'' ''on''"

definition staysOn :: HubitatDeviceEvent where
  "staysOn = deviceEvent 5 ''switch'' ''on'' ''on''"

definition timerEvent :: HubitatDeviceEvent where
  "timerEvent = \<lparr> eventType = ''timer'', deviceId = 5, attributeName = ''switch'',
     newValue = ''on'', previousValue = ''off'' \<rparr>"

definition turnedOn :: ChangeGroup where
  "turnedOn = \<lparr> filters = [\<lparr> filter_name = ''is'', filter_value = ''on'' \<rparr>,
                            \<lparr> filter_name = ''was'', filter_value = ''off'' \<rparr>] \<rparr>"

definition anyChange :: ChangeGroup where
  "anyChange = \<lparr> filters = [\<lparr> filter_name = ''changes'', filter_value = [] \<rparr>] \<rparr>"

definition deviceTrigger :: "int list \<Rightarrow> AttributeFilter list \<Rightarrow> TriggerDefinition" where
  "deviceTrigger ds afs =
     \<lparr> triggerType = HUBITAT_DEVICE_EVENT_TYPE, devices = ds, attributes = afs \<rparr>"

definition catchAllTrigger :: TriggerDefinition where
  "catchAllTrigger = deviceTrigger [] []"

definition device5Trigger :: TriggerDefinition where
  "device5Trigger = deviceTrigger [5] []"

definition switchTrigger :: TriggerDefinition where
  "switchTrigger =
     deviceTrigger [] [\<lparr> attributeNames = [''switch''], changeGroups = [anyChange] \<rparr>]"

definition namelessTrigger :: TriggerDefinition where
  "namelessTrigger = deviceTrigger [] [\<lparr> attributeNames = [], changeGroups = [turnedOn] \<rparr>]"

definition cronTrigger :: TriggerDefinition where
  "cronTrigger = \<lparr> triggerType = ''cron'', devices = [], attributes = [] \<rparr>"

definition quiet :: "HubitatDeviceEvent \<Rightarrow> string option" where
  "quiet event = None"

definition failsOnOff :: "HubitatDeviceEvent \<Rightarrow> string option" where
  "failsOnOff event = (if newValue event = ''off'' then Some ''boom'' else None)"

text \<open>
  Automation 0 subscribes to every event, 1 to device 5 (its callback throws when the
  new value is \<open>off\<close>), 2 to the attribute \<open>switch\<close>, 3 both to every event and to
  device 5, 4 to an attribute filter that names no attribute; the others have no
  device-event trigger.
\<close>

definition exampleStore :: store where
  "exampleStore r =
     (if r = 0 then
        \<lparr> automation_name = ''A'', builtTriggers = [catchAllTrigger],
          automation_handleEvent = quiet \<rparr>
      else if r = 1 then
        \<lparr> automation_name = ''B'', builtTriggers = [device5Trigger],
          automation_handleEvent = failsOnOff \<rparr>
      else if r = 2 then
        \<lparr> automation_name = ''C'', builtTriggers = [switchTrigger],
          automation_handleEvent = quiet \<rparr>
      else if r = 3 then
        \<lparr> automation_name = ''D'', builtTriggers = [catchAllTrigger, device5Trigger],
          automation_handleEvent = quiet \<rparr>
      else if r = 4 then
        \<lparr> automation_name = ''E'', builtTriggers = [namelessTrigger],
          automation_handleEvent = quiet \<rparr>
      else
        \<lparr> automation_name = ''idle'', builtTriggers = [cronTrigger],
          automation_handleEvent = quiet \<rparr>)"

definition registered :: "ref list \<Rightarrow> HubitatDeviceEventsService" where
  "registered rs = fold (\<lambda>r s. snd (registerAutomation exampleStore r s)) rs newService"

section \<open>Properties of the matcher\<close>

text \<open>
  Each loop with an early return finds an element that satisfies its test: the loops of
  \<open>matchGroups\<close>, \<open>matchAttributes\<close> and \<open>matchEvent\<close> are existential statements over the
  list they walk.
\<close>

lemma all_helper_iff: "all_helper xs p \<longleftrightarrow> (\<forall>x \<in> set xs. p x)"
  by (induction xs) auto

lemma matchGroups_loop_iff:
  "matchGroups_loop gs event \<longleftrightarrow>
     (\<exists>g \<in> set gs. all_helper (filters g) (\<lambda>f. matchFilter f event))"
  by (induction gs) auto

lemma matchAttributes_loop_iff:
  "matchAttributes_loop afs event \<longleftrightarrow>
     (\<exists>af \<in> set afs. attributeName event \<in> set (attributeNames af) \<and> matchGroups af event)"
  by (induction afs) auto

lemma matchAttributes_spec: "matchAttributes t event = spec_filtersMatch t event"
  by (simp add: matchAttributes_def spec_filtersMatch_def matchAttributes_loop_iff
      matchGroups_def matchGroups_loop_iff)

lemma matchEvent_loop_iff:
  "matchEvent_loop ts event \<longleftrightarrow> (\<exists>t \<in> set ts. spec_definitionMatches t event)"
  by (induction ts) (auto simp: spec_definitionMatches_def matchDevice_def matchAttributes_spec)

section \<open>Properties of the native sets and of the dispatch loop\<close>

text \<open>
  \<open>new Set\<close> of a sequence keeps the first occurrence of each element, in order. The three
  loops of \<open>handleEvent\<close> are one loop over the candidate stream, and the callbacks that
  loop invokes are, in order, the pending and matching elements of the stream at their
  first occurrence, up to the first callback that throws.
\<close>

lemma set_set_add [simp]: "set (set_add x xs) = insert x (set xs)"
  by (auto simp: set_add_def)

lemma distinct_set_add [simp]: "distinct (set_add x xs) = distinct xs"
  by (auto simp: set_add_def)

lemma fold_set_add: "fold set_add xs acc = acc @ filter (\<lambda>y. y \<notin> set acc) (new_Set xs)"
proof (induction xs arbitrary: acc)
  case Nil
  show ?case by (simp add: new_Set_def)
next
  case (Cons x xs)
  have sx: "set_add x [] = [x]" by (simp add: set_add_def)
  have one: "new_Set (x # xs) = x # filter (\<lambda>y. y \<noteq> x) (new_Set xs)"
    using Cons.IH [of "[x]"] by (simp add: new_Set_def sx)
  show ?case
  proof (cases "x \<in> set acc")
    case True
    have "filter (\<lambda>y. y \<notin> set acc) (filter (\<lambda>y. y \<noteq> x) (new_Set xs))
        = filter (\<lambda>y. y \<notin> set acc) (new_Set xs)"
      using True by (auto intro: filter_cong)
    moreover have "set_add x acc = acc" using True by (simp add: set_add_def)
    ultimately show ?thesis
      using True Cons.IH [of acc] by (simp add: one)
  next
    case False
    have "filter (\<lambda>y. y \<notin> set (acc @ [x])) (new_Set xs)
        = filter (\<lambda>y. y \<notin> set acc) (filter (\<lambda>y. y \<noteq> x) (new_Set xs))"
      by (auto intro: filter_cong)
    moreover have "set_add x acc = acc @ [x]" using False by (simp add: set_add_def)
    ultimately show ?thesis
      using False Cons.IH [of "acc @ [x]"] by (simp add: one)
  qed
qed

lemma new_Set_Nil [simp]: "new_Set [] = []"
  by (simp add: new_Set_def)

lemma new_Set_Cons: "new_Set (x # xs) = x # filter (\<lambda>y. y \<noteq> x) (new_Set xs)"
proof -
  have "set_add x [] = [x]" by (simp add: set_add_def)
  then show ?thesis using fold_set_add [of xs "[x]"] by (simp add: new_Set_def)
qed

lemma set_new_Set [simp]: "set (new_Set xs) = set xs"
  by (induction xs) (auto simp: new_Set_Cons)

lemma distinct_new_Set [simp]: "distinct (new_Set xs)"
  by (induction xs) (auto simp: new_Set_Cons)

lemma new_Set_distinct: "distinct xs \<Longrightarrow> new_Set xs = xs"
proof (induction xs)
  case (Cons x xs)
  then have "filter (\<lambda>y. y \<noteq> x) xs = xs" by (auto intro: filter_True)
  with Cons show ?case by (simp add: new_Set_Cons)
qed simp

lemma new_Set_append:
  "new_Set (xs @ ys) = new_Set xs @ filter (\<lambda>y. y \<notin> set xs) (new_Set ys)"
proof (induction xs)
  case (Cons x xs)
  have "filter (\<lambda>y. y \<noteq> x) (filter (\<lambda>y. y \<notin> set xs) (new_Set ys))
      = filter (\<lambda>y. y \<notin> set (x # xs)) (new_Set ys)"
    by (auto intro: filter_cong)
  with Cons show ?case by (simp add: new_Set_Cons)
qed simp

lemma forEach_append:
  "forEach body (xs @ ys) uw =
     (case forEach body xs uw of
        (Some e, uw') \<Rightarrow> (Some e, uw')
      | (None, uw') \<Rightarrow> forEach body ys uw')"
  by (induction xs arbitrary: uw) (auto split: prod.splits option.splits)

lemma handleEvent_candidates:
  assumes "eventType event = HUBITAT_DEVICE_EVENT_TYPE"
  shows "handleEvent st event s =
     (case forEach (runMatchingAutomation st event) (candidates event s)
             (new_Set (subscribedAutomations s), \<lparr> invoked = [], console = [] \<rparr>) of
        (e, uw) \<Rightarrow> (e, snd uw, s))"
  using assms
  by (simp add: handleEvent_def candidates_def forEach_append Let_def
      split: prod.splits option.splits)

lemma runMatchingAutomation_eq:
  "runMatchingAutomation st event a (u, w) =
     (if a \<in> set u \<and> matchEvent (st a) event then
        (case automation_handleEvent (st a) event of
           None \<Rightarrow> (None, removeAll a u, w\<lparr> invoked := invoked w @ [a] \<rparr>)
         | Some x \<Rightarrow>
             (Some (AutomationFailed (automation_name (st a)) event), removeAll a u,
              w\<lparr> invoked := invoked w @ [a],
                 console := console w @ [(automation_name (st a), x)] \<rparr>))
      else (None, u, w))"
  by (simp add: runMatchingAutomation_def set_delete_def Let_def split: option.splits)

lemma forEach_trace:
  assumes "forEach (runMatchingAutomation st event) cs (u, w) = (err, u', w')"
  shows "\<exists>ys. invoked w' = invoked w @ ys
           \<and> prefix ys (filter (\<lambda>a. a \<in> set u \<and> matchEvent (st a) event) (new_Set cs))
           \<and> (err = None \<longrightarrow>
                ys = filter (\<lambda>a. a \<in> set u \<and> matchEvent (st a) event) (new_Set cs))"
  using assms
proof (induction cs arbitrary: u w)
  case Nil
  then show ?case by simp
next
  case (Cons a cs)
  let ?Q = "\<lambda>u a. a \<in> set u \<and> matchEvent (st a) event"
  show ?case
  proof (cases "a \<in> set u \<and> matchEvent (st a) event")
    case False
    have "runMatchingAutomation st event a (u, w) = (None, u, w)"
      using False by (auto simp: runMatchingAutomation_eq)
    then have run: "forEach (runMatchingAutomation st event) cs (u, w) = (err, u', w')"
      using Cons.prems by simp
    have "filter (?Q u) (new_Set (a # cs)) = filter (?Q u) (new_Set cs)"
      using False by (auto simp: new_Set_Cons intro: filter_cong)
    with Cons.IH [OF run] show ?thesis by simp
  next
    case True
    have flt: "filter (?Q u) (new_Set (a # cs)) = a # filter (?Q (removeAll a u)) (new_Set cs)"
      using True by (auto simp: new_Set_Cons intro: filter_cong)
    show ?thesis
    proof (cases "automation_handleEvent (st a) event")
      case None
      with True have run: "forEach (runMatchingAutomation st event) cs
          (removeAll a u, w\<lparr> invoked := invoked w @ [a] \<rparr>) = (err, u', w')"
        using Cons.prems by (simp add: runMatchingAutomation_eq)
      from Cons.IH [OF run] obtain ys where
        "invoked w' = (invoked w @ [a]) @ ys"
        "prefix ys (filter (?Q (removeAll a u)) (new_Set cs))"
        "err = None \<longrightarrow> ys = filter (?Q (removeAll a u)) (new_Set cs)"
        by auto
      then show ?thesis
        by (intro exI [of _ "a # ys"]) (simp add: flt)
    next
      case (Some x)
      with True have "err \<noteq> None" "invoked w' = invoked w @ [a]"
        using Cons.prems by (auto simp: runMatchingAutomation_eq)
      then show ?thesis
        by (intro exI [of _ "[a]"]) (auto simp: flt)
    qed
  qed
qed

section \<open>Properties of the subscriber collections\<close>

text \<open>
  \<open>subscribe\<close> adds one entry, \<open>unsubscribe\<close> removes one entry, and neither touches
  another automation or another key; both keep every bucket free of duplicates.
\<close>

lemma set_set_delete [simp]: "set (set_delete x xs) = set xs - {x}"
  by (auto simp: set_delete_def)

lemma distinct_set_delete [simp]: "distinct xs \<Longrightarrow> distinct (set_delete x xs)"
  by (simp add: set_delete_def distinct_removeAll)

lemma getSet_Some_mem: "getSet k m = Some b \<Longrightarrow> (k, b) \<in> set m"
  by (simp add: getSet_def map_of_SomeD)

lemma bucket_subscribedUnder:
  "a \<in> set (bucket (getSet k m)) \<Longrightarrow> subscribedUnder a k m"
proof (cases "getSet k m")
  case None
  then show "a \<in> set (bucket (getSet k m)) \<Longrightarrow> subscribedUnder a k m"
    by (simp add: bucket_def)
next
  case (Some b)
  assume "a \<in> set (bucket (getSet k m))"
  with Some have "a \<in> set b" by (simp add: bucket_def)
  moreover from Some have "(k, b) \<in> set m" by (rule getSet_Some_mem)
  ultimately show "subscribedUnder a k m"
    unfolding subscribedUnder_def by force
qed

lemma getSubscribers_iff: "a \<in> set (getSubscribers m) \<longleftrightarrow> (\<exists>k. subscribedUnder a k m)"
  by (auto simp: getSubscribers_def subscribedUnder_def)

lemma fst_onKey [simp]: "fst (onKey k f p) = fst p"
  by (simp add: onKey_def)

lemma snd_onKey: "snd (onKey k f p) = (if fst p = k then f (snd p) else snd p)"
  by (simp add: onKey_def)

lemma subscribedUnder_onKey:
  "subscribedUnder a k' (map (onKey k f) m) \<longleftrightarrow>
     (\<exists>p \<in> set m. fst p = k' \<and> a \<in> set (if k' = k then f (snd p) else snd p))"
  unfolding subscribedUnder_def by (auto simp: snd_onKey)

lemma subscribedUnder_append:
  "subscribedUnder a k' (m @ [(k, bs)]) \<longleftrightarrow> subscribedUnder a k' m \<or> (k' = k \<and> a \<in> set bs)"
  unfolding subscribedUnder_def by auto

lemma subscribedUnder_subscribe:
  "subscribedUnder a k' (SubscribersMap_subscribe k b m) \<longleftrightarrow>
     subscribedUnder a k' m \<or> (a = b \<and> k' = k)"
proof (cases "getSet k m")
  case None
  then show ?thesis
    by (auto simp: SubscribersMap_subscribe_def subscribedUnder_append
        SubscribersSet_subscribe_def)
next
  case (Some bs)
  then have "(k, bs) \<in> set m" by (rule getSet_Some_mem)
  then have ex: "\<exists>p \<in> set m. fst p = k" by force
  have "subscribedUnder a k' (map (onKey k (SubscribersSet_subscribe b)) m) \<longleftrightarrow>
     subscribedUnder a k' m \<or> (a = b \<and> k' = k)"
    unfolding subscribedUnder_onKey
    using ex by (auto simp: subscribedUnder_def SubscribersSet_subscribe_def)
  with Some show ?thesis by (simp add: SubscribersMap_subscribe_def)
qed

lemma subscribedUnder_unsubscribe:
  "subscribedUnder a k' (SubscribersMap_unsubscribe k b m) \<longleftrightarrow>
     subscribedUnder a k' m \<and> \<not> (a = b \<and> k' = k)"
  unfolding SubscribersMap_unsubscribe_def subscribedUnder_onKey
  by (auto simp: subscribedUnder_def SubscribersSet_unsubscribe_def)

lemma subscribedUnder_fold_subscribe:
  "subscribedUnder a k' (fold (\<lambda>k. SubscribersMap_subscribe k b) ks m) \<longleftrightarrow>
     subscribedUnder a k' m \<or> (a = b \<and> k' \<in> set ks)"
  by (induction ks arbitrary: m) (auto simp: subscribedUnder_subscribe)

lemma subscribedUnder_fold_unsubscribe:
  "subscribedUnder a k' (fold (\<lambda>k. SubscribersMap_unsubscribe k b) ks m) \<longleftrightarrow>
     subscribedUnder a k' m \<and> \<not> (a = b \<and> k' \<in> set ks)"
  by (induction ks arbitrary: m) (auto simp: subscribedUnder_unsubscribe)

lemma bucketsDistinct_subscribe:
  "bucketsDistinct m \<Longrightarrow> bucketsDistinct (SubscribersMap_subscribe k b m)"
  unfolding bucketsDistinct_def
  by (auto simp: SubscribersMap_subscribe_def SubscribersSet_subscribe_def snd_onKey
      split: option.splits)

lemma bucketsDistinct_unsubscribe:
  "bucketsDistinct m \<Longrightarrow> bucketsDistinct (SubscribersMap_unsubscribe k b m)"
  unfolding bucketsDistinct_def
  by (auto simp: SubscribersMap_unsubscribe_def SubscribersSet_unsubscribe_def snd_onKey)

lemma bucketsDistinct_fold_subscribe:
  "bucketsDistinct m \<Longrightarrow> bucketsDistinct (fold (\<lambda>k. SubscribersMap_subscribe k b) ks m)"
  by (induction ks arbitrary: m) (simp_all add: bucketsDistinct_subscribe)

lemma bucketsDistinct_fold_unsubscribe:
  "bucketsDistinct m \<Longrightarrow> bucketsDistinct (fold (\<lambda>k. SubscribersMap_unsubscribe k b) ks m)"
  by (induction ks arbitrary: m) (simp_all add: bucketsDistinct_unsubscribe)

lemma distinct_bucket: "bucketsDistinct m \<Longrightarrow> distinct (bucket (getSet k m))"
proof (cases "getSet k m")
  case None
  then show "distinct (bucket (getSet k m))" by (simp add: bucket_def)
next
  case (Some b)
  assume "bucketsDistinct m"
  moreover from Some have "(k, b) \<in> set m" by (rule getSet_Some_mem)
  ultimately have "distinct (snd (k, b))" unfolding bucketsDistinct_def by blast
  with Some show "distinct (bucket (getSet k m))" by (simp add: bucket_def)
qed

lemma bucket_getSubscribers: "set (bucket (getSet k m)) \<subseteq> set (getSubscribers m)"
proof
  fix a assume "a \<in> set (bucket (getSet k m))"
  then have "subscribedUnder a k m" by (rule bucket_subscribedUnder)
  then show "a \<in> set (getSubscribers m)" unfolding getSubscribers_iff ..
qed

section \<open>Invariants of the service\<close>

text \<open>
  A call for automation \<open>b\<close> changes the index entries of \<open>b\<close> only. In every reachable
  state the indexed automations are in \<open>subscribedAutomations\<close>, and after
  \<open>unregisterAutomation\<close> the two sets are equal.
\<close>

lemma indexed_entriesOf: "a \<in> indexed s \<longleftrightarrow> entriesOf a s \<noteq> (False, {}, {})"
  by (auto simp: indexed_def entriesOf_def getSubscribers_iff)

lemma allAttributeNames_Nil: "attributes t = [] \<Longrightarrow> allAttributeNames t = []"
  by (simp add: allAttributeNames_def)

lemma entriesOf_registerTrigger:
  "entriesOf a (registerTrigger b t s) =
     (if a = b then
        (fst (entriesOf a s) \<or> (devices t = [] \<and> attributes t = []),
         fst (snd (entriesOf a s)) \<union> set (devices t),
         snd (snd (entriesOf a s)) \<union> (if devices t = [] then set (allAttributeNames t) else {}))
      else entriesOf a s)"
  by (auto simp: entriesOf_def registerTrigger_def SubscribersSet_subscribe_def
      subscribedUnder_fold_subscribe allAttributeNames_Nil)

lemma entriesOf_unregisterTrigger:
  "entriesOf a (unregisterTrigger b t s) =
     (if a = b then
        (fst (entriesOf a s) \<and> \<not> (devices t = [] \<and> attributes t = []),
         fst (snd (entriesOf a s)) - set (devices t),
         snd (snd (entriesOf a s)) - (if devices t = [] then set (allAttributeNames t) else {}))
      else entriesOf a s)"
  by (auto simp: entriesOf_def unregisterTrigger_def SubscribersSet_unsubscribe_def
      subscribedUnder_fold_unsubscribe allAttributeNames_Nil)

lemma subscribed_registerTrigger:
  "set (subscribedAutomations (registerTrigger b t s)) = insert b (set (subscribedAutomations s))"
  by (auto simp: registerTrigger_def)

lemma subscribed_unregisterTrigger:
  "subscribedAutomations (unregisterTrigger b t s) = subscribedAutomations s"
  by (simp add: unregisterTrigger_def)

lemma entriesOf_fold_registerTrigger_other:
  "b \<noteq> a \<Longrightarrow> entriesOf a (fold (registerTrigger b) ts s) = entriesOf a s"
  by (induction ts arbitrary: s) (simp_all add: entriesOf_registerTrigger)

lemma entriesOf_fold_unregisterTrigger_other:
  "b \<noteq> a \<Longrightarrow> entriesOf a (fold (unregisterTrigger b) ts s) = entriesOf a s"
  by (induction ts arbitrary: s) (simp_all add: entriesOf_unregisterTrigger)

lemma subscribed_fold_registerTrigger:
  "set (subscribedAutomations (fold (registerTrigger b) ts s)) =
     (if ts = [] then set (subscribedAutomations s) else insert b (set (subscribedAutomations s)))"
  by (induction ts arbitrary: s) (auto simp: subscribed_registerTrigger)

lemma indexed_fold_registerTrigger:
  "indexed (fold (registerTrigger b) ts s) \<subseteq> insert b (indexed s)"
proof
  fix a assume a: "a \<in> indexed (fold (registerTrigger b) ts s)"
  show "a \<in> insert b (indexed s)"
  proof (cases "a = b")
    case False
    then have "entriesOf a (fold (registerTrigger b) ts s) = entriesOf a s"
      by (simp add: entriesOf_fold_registerTrigger_other)
    with a show ?thesis by (simp add: indexed_entriesOf)
  qed simp
qed

lemma entriesOf_recreate [simp]:
  "entriesOf a (recreateSubscribedAutomationsSet s) = entriesOf a s"
  by (simp add: entriesOf_def recreateSubscribedAutomationsSet_def Let_def)

lemma indexed_recreate [simp]: "indexed (recreateSubscribedAutomationsSet s) = indexed s"
  by (simp add: indexed_def recreateSubscribedAutomationsSet_def Let_def)

lemma subscribed_recreate:
  "set (subscribedAutomations (recreateSubscribedAutomationsSet s)) = indexed s"
  by (auto simp: indexed_def recreateSubscribedAutomationsSet_def Let_def)

lemma subscribed_unregisterAutomation:
  "set (subscribedAutomations (unregisterAutomation st a s)) =
     indexed (unregisterAutomation st a s)"
  by (simp add: unregisterAutomation_def Let_def subscribed_recreate)

lemma entriesOf_registerAutomation_other:
  "b \<noteq> a \<Longrightarrow> entriesOf a (snd (registerAutomation st b s)) = entriesOf a s"
  by (simp add: registerAutomation_def Let_def entriesOf_fold_registerTrigger_other)

lemma entriesOf_unregisterAutomation_other:
  "b \<noteq> a \<Longrightarrow> entriesOf a (unregisterAutomation st b s) = entriesOf a s"
  by (simp add: unregisterAutomation_def Let_def entriesOf_fold_unregisterTrigger_other)

lemma registerAutomation_keeps_indexed:
  assumes "indexed s \<subseteq> set (subscribedAutomations s)"
  shows "indexed (snd (registerAutomation st a s))
           \<subseteq> set (subscribedAutomations (snd (registerAutomation st a s)))"
proof (cases "a \<in> set (subscribedAutomations s)
    \<or> getCompatibleTriggers (builtTriggers (st a)) = []")
  case True
  then have "snd (registerAutomation st a s) = s"
    by (auto simp: registerAutomation_def Let_def)
  with assms show ?thesis by simp
next
  case False
  then have eq: "snd (registerAutomation st a s) =
      fold (registerTrigger a) (getCompatibleTriggers (builtTriggers (st a))) s"
    by (auto simp: registerAutomation_def Let_def)
  show ?thesis
    unfolding eq using False assms indexed_fold_registerTrigger [of a _ s]
    by (auto simp: subscribed_fold_registerTrigger)
qed

lemma reachable_indexed_subscribed:
  "reachable s \<Longrightarrow> indexed s \<subseteq> set (subscribedAutomations s)"
proof (induction rule: reachable.induct)
  case reachable_new
  show ?case by (simp add: indexed_def newService_def getSubscribers_def)
next
  case (reachable_register s st a)
  then show ?case by (simp add: registerAutomation_keeps_indexed)
next
  case (reachable_unregister s st a)
  show ?case by (simp add: subscribed_unregisterAutomation)
qed

subsection \<open>Buckets without duplicates\<close>

lemma setsDistinct_registerTrigger:
  "setsDistinct s \<Longrightarrow> setsDistinct (registerTrigger b t s)"
  by (simp add: setsDistinct_def registerTrigger_def SubscribersSet_subscribe_def
      bucketsDistinct_fold_subscribe)

lemma setsDistinct_unregisterTrigger:
  "setsDistinct s \<Longrightarrow> setsDistinct (unregisterTrigger b t s)"
  by (simp add: setsDistinct_def unregisterTrigger_def SubscribersSet_unsubscribe_def
      bucketsDistinct_fold_unsubscribe)

lemma setsDistinct_recreate [simp]:
  "setsDistinct (recreateSubscribedAutomationsSet s) = setsDistinct s"
  by (simp add: setsDistinct_def recreateSubscribedAutomationsSet_def Let_def)

lemma reachable_setsDistinct: "reachable s \<Longrightarrow> setsDistinct s"
proof (induction rule: reachable.induct)
  case reachable_new
  show ?case by (simp add: setsDistinct_def newService_def bucketsDistinct_def)
next
  case (reachable_register s st a)
  have "setsDistinct (fold (registerTrigger a) ts s)" for ts
    by (rule fold_invariant [where Q = "\<lambda>_. True"])
      (simp_all add: reachable_register.IH setsDistinct_registerTrigger)
  with reachable_register.IH show ?case
    by (simp add: registerAutomation_def Let_def)
next
  case (reachable_unregister s st a)
  have "setsDistinct (fold (unregisterTrigger a) ts s)" for ts
    by (rule fold_invariant [where Q = "\<lambda>_. True"])
      (simp_all add: reachable_unregister.IH setsDistinct_unregisterTrigger)
  then show ?case
    by (simp add: unregisterAutomation_def Let_def)
qed

subsection \<open>The callbacks invoked by a dispatch\<close>

lemma candidates_indexed: "set (candidates event s) \<subseteq> indexed s"
  using bucket_getSubscribers [of "deviceId event" "subscriptionsByDeviceId s"]
    bucket_getSubscribers [of "attributeName event" "subscriptionsByAttributeName s"]
  by (auto simp: candidates_def indexed_def)

lemma handleEvent_invoked:
  "prefix (invokedBy (handleEvent st event s))
     (filter (\<lambda>a. a \<in> set (subscribedAutomations s) \<and> matchEvent (st a) event)
        (new_Set (candidates event s)))
   \<and> (eventType event = HUBITAT_DEVICE_EVENT_TYPE \<longrightarrow>
        thrownBy (handleEvent st event s) = None \<longrightarrow>
        invokedBy (handleEvent st event s) =
          filter (\<lambda>a. a \<in> set (subscribedAutomations s) \<and> matchEvent (st a) event)
            (new_Set (candidates event s)))"
proof (cases "eventType event = HUBITAT_DEVICE_EVENT_TYPE")
  case False
  then show ?thesis by (simp add: handleEvent_def invokedBy_def)
next
  case True
  obtain err u' w' where run:
    "forEach (runMatchingAutomation st event) (candidates event s)
       (new_Set (subscribedAutomations s), \<lparr> invoked = [], console = [] \<rparr>) = (err, u', w')"
    by (metis prod_cases3)
  from forEach_trace [OF run] True run show ?thesis
    by (auto simp: handleEvent_candidates invokedBy_def thrownBy_def)
qed

lemma invoked_candidates:
  "set (invokedBy (handleEvent st event s)) \<subseteq> set (candidates event s)"
  using handleEvent_invoked [of st event s] by (auto dest!: set_mono_prefix)

lemma distinct_invoked: "distinct (invokedBy (handleEvent st event s))"
proof -
  have "distinct (filter (\<lambda>a. a \<in> set (subscribedAutomations s) \<and> matchEvent (st a) event)
        (new_Set (candidates event s)))"
    by simp
  moreover obtain zs where
    "filter (\<lambda>a. a \<in> set (subscribedAutomations s) \<and> matchEvent (st a) event)
        (new_Set (candidates event s)) = invokedBy (handleEvent st event s) @ zs"
    using handleEvent_invoked [of st event s] by (auto simp: prefix_def)
  ultimately show ?thesis by (metis distinct_append)
qed

lemma count_list_distinct:
  "distinct xs \<Longrightarrow> count_list xs a = (if a \<in> set xs then 1 else 0)"
  by (induction xs) auto

section \<open>Further properties used by the claims\<close>

text \<open>
  In a reachable state the first occurrences of the candidate stream are the catch-all
  set, the members of the device bucket outside it, and the members of the attribute
  bucket outside both. Registering an automation whose attribute-only triggers name an
  attribute keeps \<open>subscribedAutomations\<close> equal to the indexed automations.
\<close>

lemma candidates_new_Set:
  assumes "setsDistinct s"
  shows "new_Set (candidates event s) =
     subscriptionsOfAllEvents s
     @ filter (\<lambda>a. a \<notin> set (subscriptionsOfAllEvents s))
         (bucket (getSet (deviceId event) (subscriptionsByDeviceId s)))
     @ filter (\<lambda>a. a \<notin> set (subscriptionsOfAllEvents s)
                \<and> a \<notin> set (bucket (getSet (deviceId event) (subscriptionsByDeviceId s))))
         (bucket (getSet (attributeName event) (subscriptionsByAttributeName s)))"
proof -
  from assms have "distinct (subscriptionsOfAllEvents s)"
    "distinct (bucket (getSet (deviceId event) (subscriptionsByDeviceId s)))"
    "distinct (bucket (getSet (attributeName event) (subscriptionsByAttributeName s)))"
    by (simp_all add: setsDistinct_def distinct_bucket)
  then show ?thesis
    by (simp add: candidates_def new_Set_append new_Set_distinct conj_commute)
qed

lemma notificationOrder_eq:
  assumes "reachable s"
  shows "filter (\<lambda>a. a \<in> set (subscribedAutomations s) \<and> matchEvent (st a) event)
           (new_Set (candidates event s)) = notificationOrder st event s"
proof -
  have sub: "set (candidates event s) \<subseteq> set (subscribedAutomations s)"
    using candidates_indexed reachable_indexed_subscribed [OF assms] by blast
  have "filter (\<lambda>a. a \<in> set (subscribedAutomations s) \<and> matchEvent (st a) event)
           (new_Set (candidates event s))
      = filter (\<lambda>a. matchEvent (st a) event) (new_Set (candidates event s))"
    using sub by (intro filter_cong) auto
  also have "\<dots> = notificationOrder st event s"
    by (simp add: candidates_new_Set [OF reachable_setsDistinct [OF assms]]
        notificationOrder_def conj_commute conj_left_commute)
  finally show ?thesis .
qed

lemma othersCalled_entriesOf: "othersCalled a s s' \<Longrightarrow> entriesOf a s' = entriesOf a s"
  by (induction rule: othersCalled.induct)
    (simp_all add: entriesOf_registerAutomation_other entriesOf_unregisterAutomation_other)

lemma entriesOf_register_unregister:
  assumes "entriesOf a s0 = (False, {}, {})"
    and "entriesOf a s2 = entriesOf a (registerTrigger a t s0)"
  shows "entriesOf a (unregisterTrigger a t s2) = (False, {}, {})"
  using assms by (auto simp: entriesOf_unregisterTrigger entriesOf_registerTrigger)

lemma indexed_registerTrigger_named:
  assumes "devices t \<noteq> [] \<or> attributes t = [] \<or> allAttributeNames t \<noteq> []"
  shows "indexed (registerTrigger a t s) = insert a (indexed s)"
proof -
  have "entriesOf a (registerTrigger a t s) \<noteq> (False, {}, {})"
    using assms by (auto simp: entriesOf_registerTrigger)
  then have mem: "a \<in> indexed (registerTrigger a t s)" by (simp add: indexed_entriesOf)
  show ?thesis
  proof (rule set_eqI)
    fix x
    show "x \<in> indexed (registerTrigger a t s) \<longleftrightarrow> x \<in> insert a (indexed s)"
    proof (cases "x = a")
      case True
      with mem show ?thesis by simp
    next
      case False
      then show ?thesis by (simp add: indexed_entriesOf entriesOf_registerTrigger)
    qed
  qed
qed

lemma indexed_fold_registerTrigger_named:
  assumes "\<forall>t \<in> set ts. devices t \<noteq> [] \<or> attributes t = [] \<or> allAttributeNames t \<noteq> []"
  shows "indexed (fold (registerTrigger a) ts s) =
     (if ts = [] then indexed s else insert a (indexed s))"
  using assms
proof (induction ts arbitrary: s)
  case (Cons t ts)
  then have "indexed (fold (registerTrigger a) ts (registerTrigger a t s)) =
      (if ts = [] then indexed (registerTrigger a t s)
       else insert a (indexed (registerTrigger a t s)))"
    by simp
  moreover from Cons.prems have "indexed (registerTrigger a t s) = insert a (indexed s)"
    by (simp add: indexed_registerTrigger_named)
  ultimately show ?case by simp
qed simp

lemma registerAutomation_keeps_union:
  assumes "set (subscribedAutomations s) = indexed s"
    and "\<forall>t \<in> set (getCompatibleTriggers (builtTriggers (st a))).
           devices t \<noteq> [] \<or> attributes t = [] \<or> allAttributeNames t \<noteq> []"
  shows "set (subscribedAutomations (snd (registerAutomation st a s))) =
     indexed (snd (registerAutomation st a s))"
  using assms
  by (simp add: registerAutomation_def Let_def subscribed_fold_registerTrigger
      indexed_fold_registerTrigger_named)

lemma reachable_fold_register:
  "reachable s \<Longrightarrow> reachable (fold (\<lambda>r s. snd (registerAutomation st r s)) rs s)"
  by (induction rs arbitrary: s) (simp_all add: reachable_register)

lemma reachable_registered: "reachable (registered rs)"
  unfolding registered_def by (rule reachable_fold_register) (rule reachable_new)

lemma registered_snoc:
  "registered (rs @ [r]) = snd (registerAutomation exampleStore r (registered rs))"
  by (simp add: registered_def)

text \<open>The definitions to unfold when an example is evaluated.\<close>

lemmas example_defs = registered_def exampleStore_def registerAutomation_def registerTrigger_def
  unregisterAutomation_def unregisterTrigger_def recreateSubscribedAutomationsSet_def
  getCompatibleTriggers_def catchAllTrigger_def device5Trigger_def switchTrigger_def
  namelessTrigger_def cronTrigger_def deviceTrigger_def turnedOn_def anyChange_def
  allAttributeNames_def newService_def set_add_def set_delete_def new_Set_def
  SubscribersSet_subscribe_def SubscribersSet_unsubscribe_def SubscribersMap_subscribe_def
  SubscribersMap_unsubscribe_def getSet_def onKey_def getSubscribers_def
  HUBITAT_DEVICE_EVENT_TYPE_def handleEvent_def runMatchingAutomation_def bucket_def
  matchEvent_def matchDevice_def matchAttributes_def matchGroups_def matchFilter_def
  switchOn_def switchOff_def staysOn_def timerEvent_def deviceEvent_def quiet_def
  failsOnOff_def thrownBy_def invokedBy_def consoleBy_def serviceAfter_def candidates_def
  indexed_def notificationOrder_def Let_def

section \<open>The claims\<close>

text \<open>
  Claim C1 (union invariant): after any sequence of \<open>registerAutomation\<close> and
  \<open>unregisterAutomation\<close> calls on a new service, \<open>subscribedAutomations\<close> is exactly the
  union of the catch-all set and of the subscriber sets of the two indices. The code
  keeps one half of it (\<open>reachable_indexed_subscribed\<close>: every indexed automation is in
  \<open>subscribedAutomations\<close>), restores all of it on every \<open>unregisterAutomation\<close>
  (\<open>subscribed_unregisterAutomation\<close>) and keeps all of it when an automation whose
  attribute-only triggers name an attribute is registered
  (\<open>registerAutomation_keeps_union\<close>). It loses it on one path of \<open>registerAutomation\<close>:
  the third branch adds the automation to \<open>subscribedAutomations\<close> before the loop over
  \<open>allAttributeNames\<close>, and for a trigger whose attribute filters name no attribute the
  loop subscribes nothing. After registering automation 4 of the example store on a new
  service, the automation is in \<open>subscribedAutomations\<close> and in no index: a second
  registration is rejected as a double one, and unregistering another automation drops
  automation 4 from \<open>subscribedAutomations\<close>.
\<close>

theorem C1_subscribed_without_index_entry:
  "reachable (snd (registerAutomation exampleStore 4 newService))
   \<and> fst (registerAutomation exampleStore 4 newService) = None
   \<and> set (subscribedAutomations (snd (registerAutomation exampleStore 4 newService))) = {4}
   \<and> indexed (snd (registerAutomation exampleStore 4 newService)) = {}
   \<and> fst (registerAutomation exampleStore 4
         (snd (registerAutomation exampleStore 4 newService))) = Some (AlreadyRegistered ''E'')
   \<and> subscribedAutomations (unregisterAutomation exampleStore 0
         (snd (registerAutomation exampleStore 4 newService))) = []"
proof -
  have "reachable (snd (registerAutomation exampleStore 4 newService))"
    by (intro reachable_register reachable_new)
  then show ?thesis by (simp add: example_defs)
qed

text \<open>
  Claim C2 (exactly-once dispatch): in one call of \<open>handleEvent\<close> no callback is invoked
  more than once, in whichever buckets the automation occurs; and when the call throws
  nothing for a device event, every subscribed automation that matches the event and
  occurs in one of the three traversed buckets is invoked exactly once.
\<close>

theorem C2_dispatch_exactly_once:
  "count_list (invokedBy (handleEvent st event s)) a \<le> 1
   \<and> (eventType event = HUBITAT_DEVICE_EVENT_TYPE \<longrightarrow>
        thrownBy (handleEvent st event s) = None \<longrightarrow>
        a \<in> set (subscribedAutomations s) \<longrightarrow>
        matchEvent (st a) event \<longrightarrow>
        a \<in> set (candidates event s) \<longrightarrow>
        count_list (invokedBy (handleEvent st event s)) a = 1)"
proof -
  have d: "distinct (invokedBy (handleEvent st event s))" by (rule distinct_invoked)
  have le: "count_list (invokedBy (handleEvent st event s)) a \<le> 1"
    by (simp add: count_list_distinct [OF d])
  have "a \<in> set (invokedBy (handleEvent st event s))"
    if "eventType event = HUBITAT_DEVICE_EVENT_TYPE" "thrownBy (handleEvent st event s) = None"
      "a \<in> set (subscribedAutomations s)" "matchEvent (st a) event"
      "a \<in> set (candidates event s)"
  proof -
    from that(1,2) have "invokedBy (handleEvent st event s) =
        filter (\<lambda>a. a \<in> set (subscribedAutomations s) \<and> matchEvent (st a) event)
          (new_Set (candidates event s))"
      using handleEvent_invoked [of st event s] by blast
    with that(3-5) show ?thesis by simp
  qed
  then have "eventType event = HUBITAT_DEVICE_EVENT_TYPE \<longrightarrow>
        thrownBy (handleEvent st event s) = None \<longrightarrow>
        a \<in> set (subscribedAutomations s) \<longrightarrow>
        matchEvent (st a) event \<longrightarrow>
        a \<in> set (candidates event s) \<longrightarrow>
        count_list (invokedBy (handleEvent st event s)) a = 1"
    by (simp add: count_list_distinct [OF d])
  with le show ?thesis by blast
qed

theorem C2_dispatch_exactly_once_witness:
  "3 \<in> set (subscriptionsOfAllEvents (registered [3, 0]))
   \<and> 3 \<in> set (bucket (getSet (deviceId switchOn) (subscriptionsByDeviceId (registered [3, 0]))))
   \<and> eventType switchOn = HUBITAT_DEVICE_EVENT_TYPE
   \<and> thrownBy (handleEvent exampleStore switchOn (registered [3, 0])) = None
   \<and> 3 \<in> set (subscribedAutomations (registered [3, 0]))
   \<and> matchEvent (exampleStore 3) switchOn
   \<and> 3 \<in> set (candidates switchOn (registered [3, 0]))
   \<and> count_list (invokedBy (handleEvent exampleStore switchOn (registered [3, 0]))) 3 = 1"
proof -
  have h: "3 \<in> set (subscriptionsOfAllEvents (registered [3, 0]))"
    "3 \<in> set (bucket (getSet (deviceId switchOn) (subscriptionsByDeviceId (registered [3, 0]))))"
    "eventType switchOn = HUBITAT_DEVICE_EVENT_TYPE"
    "thrownBy (handleEvent exampleStore switchOn (registered [3, 0])) = None"
    "3 \<in> set (subscribedAutomations (registered [3, 0]))"
    "matchEvent (exampleStore 3) switchOn"
    "3 \<in> set (candidates switchOn (registered [3, 0]))"
    by (simp_all add: example_defs)
  with C2_dispatch_exactly_once [of exampleStore switchOn "registered [3, 0]" 3]
  have "count_list (invokedBy (handleEvent exampleStore switchOn (registered [3, 0]))) 3 = 1"
    by blast
  with h show ?thesis by blast
qed

text \<open>
  Claim C3 (matcher semantics): \<open>matchEvent\<close> is true exactly when some device-event
  trigger definition of the automation matches as the specification words it
  (\<open>spec_matches\<close>): without device restriction, when there is no attribute filter or the
  attribute filters match; with a device restriction, when the event's device id is
  listed and there is no attribute filter or the attribute filters match. An automation
  with no device-event trigger definition never matches.
\<close>

theorem C3_matchEvent_semantics:
  "matchEvent automation event = spec_matches automation event
   \<and> (getCompatibleTriggers (builtTriggers automation) = [] \<longrightarrow>
        \<not> matchEvent automation event)"
  by (auto simp: matchEvent_def spec_matches_def matchEvent_loop_iff getCompatibleTriggers_def)

theorem C3_matchEvent_semantics_witness:
  "getCompatibleTriggers (builtTriggers (exampleStore 5)) = []
   \<and> \<not> matchEvent (exampleStore 5) switchOn
   \<and> matchEvent (exampleStore 1) switchOn
   \<and> spec_matches (exampleStore 1) switchOn"
proof -
  have none: "getCompatibleTriggers (builtTriggers (exampleStore 5)) = []"
    by (simp add: example_defs)
  with C3_matchEvent_semantics [of "exampleStore 5" switchOn]
  have no: "\<not> matchEvent (exampleStore 5) switchOn" by blast
  have yes: "matchEvent (exampleStore 1) switchOn"
    by (simp add: example_defs)
  with C3_matchEvent_semantics [of "exampleStore 1" switchOn]
  have "spec_matches (exampleStore 1) switchOn" by blast
  with none no yes show ?thesis by blast
qed

text \<open>
  Claim C4 (change filters and change groups): \<open>changes\<close> is always true, \<open>is\<close> compares
  the new value with the filter value, \<open>is-not\<close> is its negation, \<open>was\<close> compares the
  previous value, \<open>was-not\<close> is its negation, and any other tag gives false (the function
  has no error result). \<open>matchGroups\<close> accepts an attribute filter exactly when all the
  filters of one of its change groups evaluate true; so it accepts a filter with the
  single group \<open>g\<close> exactly when all filters of \<open>g\<close> evaluate true, and it accepts a
  filter whose single group has no filters.
\<close>

theorem C4_change_filter_semantics:
  "(filter_name f = ''changes'' \<longrightarrow> matchFilter f event)
   \<and> (filter_name f = ''is'' \<longrightarrow> matchFilter f event = (newValue event = filter_value f))
   \<and> (filter_name f = ''is-not'' \<longrightarrow> matchFilter f event = (newValue event \<noteq> filter_value f))
   \<and> (filter_name f = ''was'' \<longrightarrow> matchFilter f event = (previousValue event = filter_value f))
   \<and> (filter_name f = ''was-not'' \<longrightarrow>
        matchFilter f event = (previousValue event \<noteq> filter_value f))
   \<and> (filter_name f \<notin> {''changes'', ''is'', ''is-not'', ''was'', ''was-not''} \<longrightarrow>
        \<not> matchFilter f event)
   \<and> (matchGroups af event =
        (\<exists>g \<in> set (changeGroups af). \<forall>f \<in> set (filters g). matchFilter f event))
   \<and> (matchGroups \<lparr> attributeNames = ns, changeGroups = [g] \<rparr> event =
        (\<forall>f \<in> set (filters g). matchFilter f event))
   \<and> matchGroups \<lparr> attributeNames = ns, changeGroups = [\<lparr> filters = [] \<rparr>] \<rparr> event"
proof -
  have groups: "matchGroups x event =
      (\<exists>g \<in> set (changeGroups x). \<forall>f \<in> set (filters g). matchFilter f event)" for x
    by (simp add: matchGroups_def matchGroups_loop_iff all_helper_iff)
  have "matchGroups \<lparr> attributeNames = ns, changeGroups = [g] \<rparr> event =
      (\<forall>f \<in> set (filters g). matchFilter f event)"
    by (simp add: groups)
  moreover have "matchGroups \<lparr> attributeNames = ns, changeGroups = [\<lparr> filters = [] \<rparr>] \<rparr> event"
    by (simp add: groups)
  moreover note groups [of af]
  ultimately show ?thesis by (simp add: matchFilter_def)
qed

theorem C4_change_filter_semantics_witness:
  "matchFilter \<lparr> filter_name = ''changes'', filter_value = [] \<rparr> staysOn
   \<and> matchFilter \<lparr> filter_name = ''is'', filter_value = ''on'' \<rparr> switchOn
   \<and> \<not> matchFilter \<lparr> filter_name = ''is-not'', filter_value = ''on'' \<rparr> switchOn
   \<and> matchFilter \<lparr> filter_name = ''was'', filter_value = ''off'' \<rparr> switchOn
   \<and> \<not> matchFilter \<lparr> filter_name = ''was-not'', filter_value = ''off'' \<rparr> switchOn
   \<and> \<not> matchFilter \<lparr> filter_name = ''becomes'', filter_value = ''on'' \<rparr> switchOn
   \<and> matchGroups \<lparr> attributeNames = [''switch''], changeGroups = [turnedOn] \<rparr> switchOn
   \<and> \<not> matchGroups \<lparr> attributeNames = [''switch''], changeGroups = [turnedOn] \<rparr> staysOn
   \<and> matchGroups \<lparr> attributeNames = [''switch''], changeGroups = [\<lparr> filters = [] \<rparr>] \<rparr> staysOn
   \<and> \<not> matchGroups \<lparr> attributeNames = [''switch''], changeGroups = [] \<rparr> switchOn"
proof -
  have ev: "newValue switchOn = ''on''" "previousValue switchOn = ''off''"
    "newValue staysOn = ''on''" "previousValue staysOn = ''on''"
    by (simp_all add: switchOn_def staysOn_def deviceEvent_def)
  have grp: "filters turnedOn = [\<lparr> filter_name = ''is'', filter_value = ''on'' \<rparr>,
      \<lparr> filter_name = ''was'', filter_value = ''off'' \<rparr>]"
    by (simp add: turnedOn_def)
  note on = C4_change_filter_semantics [where event = switchOn and g = turnedOn
      and ns = "[''switch'']"
      and af = "\<lparr> attributeNames = [''switch''], changeGroups = [] \<rparr>"]
  note stays = C4_change_filter_semantics [where event = staysOn and g = turnedOn
      and ns = "[''switch'']"
      and af = "\<lparr> attributeNames = [''switch''], changeGroups = [] \<rparr>"]
  have "matchFilter \<lparr> filter_name = ''changes'', filter_value = [] \<rparr> staysOn"
    using stays [where f = "\<lparr> filter_name = ''changes'', filter_value = [] \<rparr>"] by simp
  moreover have is_on: "matchFilter \<lparr> filter_name = ''is'', filter_value = ''on'' \<rparr> switchOn"
    using on [where f = "\<lparr> filter_name = ''is'', filter_value = ''on'' \<rparr>"] by (simp add: ev)
  moreover have "\<not> matchFilter \<lparr> filter_name = ''is-not'', filter_value = ''on'' \<rparr> switchOn"
    using on [where f = "\<lparr> filter_name = ''is-not'', filter_value = ''on'' \<rparr>"]
    by (simp add: ev)
  moreover have was_off: "matchFilter \<lparr> filter_name = ''was'', filter_value = ''off'' \<rparr> switchOn"
    using on [where f = "\<lparr> filter_name = ''was'', filter_value = ''off'' \<rparr>"] by (simp add: ev)
  moreover have "\<not> matchFilter \<lparr> filter_name = ''was-not'', filter_value = ''off'' \<rparr> switchOn"
    using on [where f = "\<lparr> filter_name = ''was-not'', filter_value = ''off'' \<rparr>"]
    by (simp add: ev)
  moreover have "\<not> matchFilter \<lparr> filter_name = ''becomes'', filter_value = ''on'' \<rparr> switchOn"
    using on [where f = "\<lparr> filter_name = ''becomes'', filter_value = ''on'' \<rparr>"] by simp
  moreover have "matchGroups \<lparr> attributeNames = [''switch''], changeGroups = [turnedOn] \<rparr> switchOn"
    using on [where f = "\<lparr> filter_name = ''is'', filter_value = ''on'' \<rparr>"] is_on was_off
    by (simp add: grp)
  moreover have
    "\<not> matchGroups \<lparr> attributeNames = [''switch''], changeGroups = [turnedOn] \<rparr> staysOn"
    using stays [where f = "\<lparr> filter_name = ''was'', filter_value = ''off'' \<rparr>"]
    by (simp add: grp ev)
  moreover have
    "matchGroups \<lparr> attributeNames = [''switch''], changeGroups = [\<lparr> filters = [] \<rparr>] \<rparr> staysOn"
    using stays [where f = "\<lparr> filter_name = ''was'', filter_value = ''off'' \<rparr>"] by simp
  moreover have "\<not> matchGroups \<lparr> attributeNames = [''switch''], changeGroups = [] \<rparr> switchOn"
    using on [where f = "\<lparr> filter_name = ''is'', filter_value = ''on'' \<rparr>"] by simp
  ultimately show ?thesis by blast
qed

text \<open>
  Claim C5 (failure short-circuit): in a reachable state, when the candidate stream of a
  device event is \<open>[A, B, C]\<close>, three different automations that all match, the callback
  of \<open>A\<close> returns and the callback of \<open>B\<close> throws, then \<open>handleEvent\<close> invokes \<open>A\<close> and \<open>B\<close>
  and not \<open>C\<close>, throws the error that names \<open>B\<close> and carries the event, and has written the
  exception of \<open>B\<close> to the console.
\<close>

theorem C5_failure_short_circuit:
  assumes "reachable s"
    and "eventType event = HUBITAT_DEVICE_EVENT_TYPE"
    and "candidates event s = [A, B, C]"
    and "distinct [A, B, C]"
    and "matchEvent (st A) event" and "matchEvent (st B) event" and "matchEvent (st C) event"
    and "automation_handleEvent (st A) event = None"
    and "automation_handleEvent (st B) event = Some x"
  shows "invokedBy (handleEvent st event s) = [A, B]
     \<and> C \<notin> set (invokedBy (handleEvent st event s))
     \<and> thrownBy (handleEvent st event s) = Some (AutomationFailed (automation_name (st B)) event)
     \<and> consoleBy (handleEvent st event s) = [(automation_name (st B), x)]"
proof -
  have "set (candidates event s) \<subseteq> set (subscribedAutomations s)"
    using candidates_indexed reachable_indexed_subscribed [OF assms(1)] by blast
  with assms(3) have "A \<in> set (subscribedAutomations s)" "B \<in> set (subscribedAutomations s)"
    by auto
  with assms show ?thesis
    by (simp add: handleEvent_candidates runMatchingAutomation_eq invokedBy_def thrownBy_def
        consoleBy_def)
qed

theorem C5_failure_short_circuit_witness:
  "reachable (registered [0, 1, 2])
   \<and> candidates switchOff (registered [0, 1, 2]) = [0, 1, 2]
   \<and> automation_handleEvent (exampleStore 1) switchOff = Some ''boom''
   \<and> invokedBy (handleEvent exampleStore switchOff (registered [0, 1, 2])) = [0, 1]
   \<and> 2 \<notin> set (invokedBy (handleEvent exampleStore switchOff (registered [0, 1, 2])))
   \<and> thrownBy (handleEvent exampleStore switchOff (registered [0, 1, 2])) =
       Some (AutomationFailed ''B'' switchOff)
   \<and> consoleBy (handleEvent exampleStore switchOff (registered [0, 1, 2])) = [(''B'', ''boom'')]"
proof -
  have r: "reachable (registered [0, 1, 2])" by (rule reachable_registered)
  have e: "eventType switchOff = HUBITAT_DEVICE_EVENT_TYPE"
    by (simp add: switchOff_def deviceEvent_def)
  have c: "candidates switchOff (registered [0, 1, 2]) = [0, 1, 2]"
    by (simp add: example_defs)
  have d: "distinct [0, 1, 2 :: nat]" by simp
  have m: "matchEvent (exampleStore 0) switchOff" "matchEvent (exampleStore 1) switchOff"
    "matchEvent (exampleStore 2) switchOff"
    by (simp_all add: example_defs)
  have a: "automation_handleEvent (exampleStore 0) switchOff = None"
    by (simp add: exampleStore_def quiet_def)
  have b: "automation_handleEvent (exampleStore 1) switchOff = Some ''boom''"
    by (simp add: exampleStore_def failsOnOff_def switchOff_def deviceEvent_def)
  have n: "automation_name (exampleStore 1) = ''B''" by (simp add: exampleStore_def)
  from C5_failure_short_circuit [OF r e c d m a b] r c b n show ?thesis by simp
qed

text \<open>
  Claim C6 (notification order), as amended: in a reachable state the callbacks invoked
  for an event are an initial part of \<open>notificationOrder\<close>, and all of it when the call
  throws nothing for a device event: first the matching catch-all subscribers, then
  the matching subscribers of the event's device that are not catch-all subscribers,
  then the matching subscribers of the event's attribute name that are in neither, each
  part in the insertion order of its bucket. An automation is notified at its first
  occurrence in the candidate stream only.
\<close>

theorem C6_notification_order:
  assumes "reachable s"
  shows "prefix (invokedBy (handleEvent st event s)) (notificationOrder st event s)
     \<and> (eventType event = HUBITAT_DEVICE_EVENT_TYPE \<longrightarrow>
          thrownBy (handleEvent st event s) = None \<longrightarrow>
          invokedBy (handleEvent st event s) = notificationOrder st event s)"
  using handleEvent_invoked [of st event s] by (simp add: notificationOrder_eq [OF assms])

theorem C6_notification_order_witness:
  "reachable (registered [0, 1, 2])
   \<and> eventType switchOn = HUBITAT_DEVICE_EVENT_TYPE
   \<and> thrownBy (handleEvent exampleStore switchOn (registered [0, 1, 2])) = None
   \<and> notificationOrder exampleStore switchOn (registered [0, 1, 2]) = [0, 1, 2]
   \<and> invokedBy (handleEvent exampleStore switchOn (registered [0, 1, 2])) = [0, 1, 2]"
proof -
  have r: "reachable (registered [0, 1, 2])" by (rule reachable_registered)
  have e: "eventType switchOn = HUBITAT_DEVICE_EVENT_TYPE"
    by (simp add: switchOn_def deviceEvent_def)
  have t: "thrownBy (handleEvent exampleStore switchOn (registered [0, 1, 2])) = None"
    by (simp add: example_defs)
  have n: "notificationOrder exampleStore switchOn (registered [0, 1, 2]) = [0, 1, 2]"
    by (simp add: example_defs)
  from C6_notification_order [OF r, of exampleStore switchOn] e t
  have "invokedBy (handleEvent exampleStore switchOn (registered [0, 1, 2])) =
      notificationOrder exampleStore switchOn (registered [0, 1, 2])"
    by blast
  with r e t n show ?thesis by simp
qed

text \<open>
  The claim as worded, with every subscriber of a later bucket after every subscriber
  of an earlier one and each bucket served in its own order, fails for an automation
  that is in two buckets. Automation 1 registers for device 5, then automation 3 for
  every event and for device 5, then automation 0 for every event. For an event of
  device 5 the device bucket is \<open>[1, 3]\<close> and the catch-all set is \<open>[3, 0]\<close>; the callbacks
  run in the order 3, 0, 1. So 3, a subscriber of device 5, is notified before the
  catch-all subscriber 0, and the members of the device bucket are notified in the order
  3, 1, not in the order 1, 3 of their insertion.
\<close>

theorem C6_counterexample:
  "subscriptionsOfAllEvents (registered [1, 3, 0]) = [3, 0]
   \<and> bucket (getSet (deviceId switchOn) (subscriptionsByDeviceId (registered [1, 3, 0]))) = [1, 3]
   \<and> thrownBy (handleEvent exampleStore switchOn (registered [1, 3, 0])) = None
   \<and> invokedBy (handleEvent exampleStore switchOn (registered [1, 3, 0])) = [3, 0, 1]"
  by (simp add: example_defs)

text \<open>
  Claim C7 (double registration): \<open>registerAutomation\<close> on an automation that is in
  \<open>subscribedAutomations\<close> throws the already-registered error naming the automation and
  leaves the service as it was. In particular a second registration after a successful
  one of an automation with a device-event trigger is rejected so.
\<close>

theorem C7_double_register_rejected:
  "(a \<in> set (subscribedAutomations s) \<longrightarrow>
      registerAutomation st a s = (Some (AlreadyRegistered (automation_name (st a))), s))
   \<and> (registerAutomation st a s = (None, s') \<longrightarrow>
        getCompatibleTriggers (builtTriggers (st a)) \<noteq> [] \<longrightarrow>
        registerAutomation st' a s' = (Some (AlreadyRegistered (automation_name (st' a))), s'))"
proof -
  have "a \<in> set (subscribedAutomations s')"
    if "registerAutomation st a s = (None, s')"
      "getCompatibleTriggers (builtTriggers (st a)) \<noteq> []"
  proof -
    from that have "s' = fold (registerTrigger a) (getCompatibleTriggers (builtTriggers (st a))) s"
      by (auto simp: registerAutomation_def Let_def split: if_splits)
    with that(2) show ?thesis by (simp add: subscribed_fold_registerTrigger)
  qed
  then show ?thesis by (auto simp: registerAutomation_def)
qed

theorem C7_double_register_rejected_witness:
  "0 \<in> set (subscribedAutomations (registered [0]))
   \<and> registerAutomation exampleStore 0 newService = (None, registered [0])
   \<and> getCompatibleTriggers (builtTriggers (exampleStore 0)) \<noteq> []
   \<and> registerAutomation exampleStore 0 (registered [0]) =
       (Some (AlreadyRegistered ''A''), registered [0])"
proof -
  have h: "0 \<in> set (subscribedAutomations (registered [0]))"
    "registerAutomation exampleStore 0 newService = (None, registered [0])"
    "getCompatibleTriggers (builtTriggers (exampleStore 0)) \<noteq> []"
    by (simp_all add: example_defs)
  have n: "automation_name (exampleStore 0) = ''A''" by (simp add: exampleStore_def)
  from C7_double_register_rejected [of 0 "registered [0]" exampleStore] h(1) n
  have one: "registerAutomation exampleStore 0 (registered [0]) =
      (Some (AlreadyRegistered ''A''), registered [0])"
    by simp
  from C7_double_register_rejected [of 0 newService exampleStore "registered [0]" exampleStore]
    h(2,3) n
  have "registerAutomation exampleStore 0 (registered [0]) =
      (Some (AlreadyRegistered ''A''), registered [0])"
    by simp
  with h show ?thesis by blast
qed

text \<open>
  Claim C8 (unregister completeness): an automation whose only device-event trigger
  definition is \<open>t\<close> is registered in a reachable state; any calls for other automations
  may follow; the automation, its trigger definition still \<open>t\<close>, is then unregistered.
  Afterwards it is not in \<open>subscribedAutomations\<close>, and no event, whether its trigger
  definition matched it or not, makes \<open>handleEvent\<close> invoke its callback.
\<close>

theorem C8_unregister_complete:
  assumes "reachable s0"
    and "getCompatibleTriggers (builtTriggers (st a)) = [t]"
    and "registerAutomation st a s0 = (None, s1)"
    and "othersCalled a s1 s2"
    and "getCompatibleTriggers (builtTriggers (st' a)) = [t]"
  shows "a \<notin> set (subscribedAutomations (unregisterAutomation st' a s2))
     \<and> a \<notin> set (invokedBy (handleEvent st'' event (unregisterAutomation st' a s2)))"
proof -
  from assms(3) have "a \<notin> set (subscribedAutomations s0)"
    by (auto simp: registerAutomation_def split: if_splits)
  with reachable_indexed_subscribed [OF assms(1)] have "a \<notin> indexed s0" by blast
  then have e0: "entriesOf a s0 = (False, {}, {})" by (simp add: indexed_entriesOf)
  from assms(2,3) have "s1 = registerTrigger a t s0"
    by (auto simp: registerAutomation_def Let_def split: if_splits)
  with othersCalled_entriesOf [OF assms(4)]
  have "entriesOf a s2 = entriesOf a (registerTrigger a t s0)" by simp
  with e0 have "entriesOf a (unregisterTrigger a t s2) = (False, {}, {})"
    by (rule entriesOf_register_unregister)
  with assms(5) have "entriesOf a (unregisterAutomation st' a s2) = (False, {}, {})"
    by (simp add: unregisterAutomation_def Let_def)
  then have out: "a \<notin> indexed (unregisterAutomation st' a s2)"
    by (simp add: indexed_entriesOf)
  then have "a \<notin> set (subscribedAutomations (unregisterAutomation st' a s2))"
    by (simp add: subscribed_unregisterAutomation)
  moreover have "a \<notin> set (invokedBy (handleEvent st'' event (unregisterAutomation st' a s2)))"
    using out invoked_candidates candidates_indexed by blast
  ultimately show ?thesis ..
qed

theorem C8_unregister_complete_witness:
  "reachable (registered [0])
   \<and> getCompatibleTriggers (builtTriggers (exampleStore 1)) = [device5Trigger]
   \<and> registerAutomation exampleStore 1 (registered [0]) = (None, registered [0, 1])
   \<and> othersCalled 1 (registered [0, 1]) (registered [0, 1, 2])
   \<and> 1 \<in> set (invokedBy (handleEvent exampleStore switchOn (registered [0, 1, 2])))
   \<and> 1 \<notin> set (subscribedAutomations (unregisterAutomation exampleStore 1 (registered [0, 1, 2])))
   \<and> 1 \<notin> set (invokedBy (handleEvent exampleStore switchOn
        (unregisterAutomation exampleStore 1 (registered [0, 1, 2]))))"
proof -
  have r: "reachable (registered [0])" by (rule reachable_registered)
  have t: "getCompatibleTriggers (builtTriggers (exampleStore 1)) = [device5Trigger]"
    by (simp add: exampleStore_def getCompatibleTriggers_def device5Trigger_def
        deviceTrigger_def)
  have g: "registerAutomation exampleStore 1 (registered [0]) = (None, registered [0, 1])"
    by (simp add: example_defs)
  have "othersCalled 1 (registered [0, 1])
      (snd (registerAutomation exampleStore 2 (registered [0, 1])))"
    by (intro others_register others_none) simp
  then have o: "othersCalled 1 (registered [0, 1]) (registered [0, 1, 2])"
    using registered_snoc [of "[0, 1]" 2] by simp
  have before: "1 \<in> set (invokedBy (handleEvent exampleStore switchOn (registered [0, 1, 2])))"
    by (simp add: example_defs)
  from C8_unregister_complete [where ?s0.0 = "registered [0]" and st = exampleStore and a = 1
      and t = device5Trigger and ?s1.0 = "registered [0, 1]" and ?s2.0 = "registered [0, 1, 2]"
      and st' = exampleStore and st'' = exampleStore and event = switchOn]
    r t g o before
  show ?thesis by blast
qed

text \<open>
  Claim C9 (irrelevant events): for an event whose \<open>eventType\<close> is not the device-event
  marker, \<open>handleEvent\<close> invokes no callback, throws nothing, writes nothing to the
  console and leaves the service as it was.
\<close>

theorem C9_irrelevant_event_noop:
  "eventType event \<noteq> HUBITAT_DEVICE_EVENT_TYPE \<Longrightarrow>
     invokedBy (handleEvent st event s) = []
     \<and> thrownBy (handleEvent st event s) = None
     \<and> consoleBy (handleEvent st event s) = []
     \<and> serviceAfter (handleEvent st event s) = s"
  by (simp add: handleEvent_def invokedBy_def thrownBy_def consoleBy_def serviceAfter_def)

theorem C9_irrelevant_event_noop_witness:
  "eventType timerEvent \<noteq> HUBITAT_DEVICE_EVENT_TYPE
   \<and> invokedBy (handleEvent exampleStore timerEvent (registered [0, 1, 2])) = []
   \<and> thrownBy (handleEvent exampleStore timerEvent (registered [0, 1, 2])) = None
   \<and> serviceAfter (handleEvent exampleStore timerEvent (registered [0, 1, 2])) =
       registered [0, 1, 2]"
proof -
  have h: "eventType timerEvent \<noteq> HUBITAT_DEVICE_EVENT_TYPE"
    by (simp add: timerEvent_def HUBITAT_DEVICE_EVENT_TYPE_def)
  from C9_irrelevant_event_noop [OF h, of exampleStore "registered [0, 1, 2]"] h
  show ?thesis by blast
qed




end
